theory Spec2Isabelle
  imports Main "HOL-Library.Stream" "HOL-Library.Sublist" "HOL-Library.Multiset"
begin

section \<open>Characters and strings\<close>

text \<open>
  A Python \<open>str\<close> is a sequence of code points. The model reads a \<^typ>\<open>char\<close> as the code
  point with the same number (0 to 255, that is ASCII and the Latin-1 supplement), and a
  \<^typ>\<open>string\<close> as a \<open>str\<close> over those code points. The character classes below are
  Python's over that range: \<open>[a-zA-Z]\<close>, the regular expression class \<open>\w\<close>
  (\<open>str.isalnum\<close> or the underscore), \<open>str.isspace\<close>, and \<open>str.lower\<close>, which maps
  a code point of that range to one code point of that range.
\<close>

definition code_in :: "nat \<Rightarrow> nat \<Rightarrow> char \<Rightarrow> bool" where
  "code_in lo hi c = (lo \<le> of_char c \<and> (of_char c :: nat) \<le> hi)"

definition is_ascii_letter :: "char \<Rightarrow> bool" where
  "is_ascii_letter c = (code_in 65 90 c \<or> code_in 97 122 c)"

definition is_lower_letter :: "char \<Rightarrow> bool" where
  "is_lower_letter c = code_in 97 122 c"

definition is_word_char :: "char \<Rightarrow> bool" where
  "is_word_char c =
     (code_in 48 57 c \<or> code_in 65 90 c \<or> c = CHR ''_'' \<or> code_in 97 122 c \<or>
      code_in 170 170 c \<or> code_in 178 179 c \<or> code_in 181 181 c \<or> code_in 185 186 c \<or>
      code_in 188 190 c \<or> code_in 192 214 c \<or> code_in 216 246 c \<or> code_in 248 255 c)"

definition is_space_char :: "char \<Rightarrow> bool" where
  "is_space_char c = (code_in 9 13 c \<or> code_in 28 32 c \<or> code_in 133 133 c \<or> code_in 160 160 c)"

definition lower_char :: "char \<Rightarrow> char" where
  "lower_char c =
     (if code_in 65 90 c \<or> code_in 192 214 c \<or> code_in 216 222 c
      then char_of (of_char c + (32 :: nat)) else c)"

definition str_lower :: "string \<Rightarrow> string" where
  "str_lower s = map lower_char s"

definition str_strip :: "string \<Rightarrow> string" where
  "str_strip s = rev (dropWhile is_space_char (rev (dropWhile is_space_char s)))"

section \<open>The tokenizer of \<open>extract_key_terms\<close>\<close>

text \<open>
  \<open>re.findall(r'\b[a-zA-Z]+\b', s)\<close>. The search runs over the positions of \<open>s\<close> from
  left to right. At a position the pattern matches when \<open>\b\<close> holds there (exactly one of
  the character before and the character after is a \<open>\w\<close> character, the ends of the
  string counting as not \<open>\w\<close>), then \<open>[a-zA-Z]+\<close> takes the longest run of letters and
  gives letters back one at a time until \<open>\b\<close> holds at the end of the match. After a
  match the search goes on at its end; without one it moves one character on.

  \<open>findall_words prev s\<close> is the search on the rest \<open>s\<close> of the string, \<open>prev\<close> the
  character before it. \<open>match_here prev c cs\<close> is the match at the position of \<open>c\<close>: the
  number of letters it holds after \<open>c\<close>.
\<close>

fun char_at :: "string \<Rightarrow> nat \<Rightarrow> char option" where
  "char_at [] i = None"
| "char_at (c # cs) 0 = Some c"
| "char_at (c # cs) (Suc i) = char_at cs i"

definition opt_word :: "char option \<Rightarrow> bool" where
  "opt_word p = (case p of None \<Rightarrow> False | Some c \<Rightarrow> is_word_char c)"

definition word_boundary :: "char option \<Rightarrow> char option \<Rightarrow> bool" where
  "word_boundary prev nxt = (opt_word prev \<noteq> opt_word nxt)"

fun backtrack :: "string \<Rightarrow> nat \<Rightarrow> nat option" where
  "backtrack s 0 = (if word_boundary (char_at s 0) (char_at s 1) then Some 0 else None)"
| "backtrack s (Suc k) =
     (if word_boundary (char_at s (Suc k)) (char_at s (Suc (Suc k))) then Some (Suc k)
      else backtrack s k)"

definition match_here :: "char option \<Rightarrow> char \<Rightarrow> string \<Rightarrow> nat option" where
  "match_here prev c cs =
     (if word_boundary prev (Some c) \<and> is_ascii_letter c
      then backtrack (c # cs) (length (takeWhile is_ascii_letter cs))
      else None)"

fun findall_words :: "char option \<Rightarrow> string \<Rightarrow> string list" where
  "findall_words prev [] = []"
| "findall_words prev (c # cs) =
     (case match_here prev c cs of
        Some k \<Rightarrow> (c # take k cs) # findall_words (char_at (c # cs) k) (drop k cs)
      | None \<Rightarrow> findall_words (Some c) cs)"

definition re_findall_words :: "string \<Rightarrow> string list" where
  "re_findall_words s = findall_words None s"

text \<open>The list \<open>words\<close> of \<open>extract_key_terms\<close>: the tokens of the lowercased text.\<close>

definition words :: "string \<Rightarrow> string list" where
  "words doc = re_findall_words (str_lower doc)"

text \<open>
  The tokenizer in words, for comparison with the search above: the maximal runs of
  \<open>\w\<close> characters of a string, in order. A token will be such a run that holds ASCII
  letters only.
\<close>

function word_runs :: "string \<Rightarrow> string list" where
  "word_runs [] = []"
| "word_runs (c # cs) =
     (if is_word_char c then (c # takeWhile is_word_char cs) # word_runs (dropWhile is_word_char cs)
      else word_runs cs)"
  by pat_completeness auto
termination
  by (relation "measure length") (auto intro: le_imp_less_Suc length_dropWhile_le)

text \<open>Position \<open>i\<close> of \<open>s\<close> holds an ASCII letter.\<close>

definition letter_at :: "string \<Rightarrow> nat \<Rightarrow> bool" where
  "letter_at s i = (i < length s \<and> is_ascii_letter (s ! i))"

section \<open>\<open>extract_key_terms\<close>\<close>

text \<open>The set \<open>stopwords\<close>; the code only tests membership in it.\<close>

definition stopwords :: "string list" where
  "stopwords =
     [''the'', ''a'', ''an'', ''and'', ''or'', ''but'', ''in'', ''on'', ''at'', ''to'', ''for'',
      ''of'', ''with'', ''by'', ''is'', ''are'', ''was'', ''were'', ''be'', ''been'', ''being'',
      ''have'', ''has'', ''had'', ''do'', ''does'', ''did'', ''will'', ''would'', ''could'',
      ''should'', ''may'', ''might'', ''must'', ''can'', ''this'', ''that'', ''these'', ''those'']"

text \<open>The filter of the comprehension \<open>key_terms\<close>.\<close>

definition is_key_term :: "string \<Rightarrow> bool" where
  "is_key_term w = (w \<notin> set stopwords \<and> length w > 3)"

text \<open>
  \<open>term_freq[term] = term_freq.get(term, 0) + 1\<close> on a \<open>dict\<close>, which keeps its keys in the
  order of their first insertion: the dictionary is the list of its items in that order.
\<close>

fun dict_incr :: "('k \<times> nat) list \<Rightarrow> 'k \<Rightarrow> ('k \<times> nat) list" where
  "dict_incr [] k = [(k, 0 + 1)]"
| "dict_incr ((k', v) # kvs) k =
     (if k' = k then (k', v + 1) # kvs else (k', v) # dict_incr kvs k)"

text \<open>
  \<open>sorted(items, key=..., reverse=True)\<close>: Python reverses the list, sorts it stably by
  ascending key and reverses the result, so items of equal key keep their order.
  \<^const>\<open>sort_key\<close> is a stable insertion sort.
\<close>

definition sorted_desc :: "('a \<Rightarrow> nat) \<Rightarrow> 'a list \<Rightarrow> 'a list" where
  "sorted_desc key xs = rev (sort_key key (rev xs))"

definition extract_key_terms :: "string \<Rightarrow> string list" where
  "extract_key_terms doc =
     (let key_terms = filter is_key_term (words doc);
          term_freq = foldl dict_incr [] key_terms;
          sorted_terms = sorted_desc snd term_freq
      in map fst (take 10 sorted_terms))"

text \<open>
  For the statements about the ranking: the position of the first occurrence of \<open>x\<close> in
  \<open>xs\<close>, and the elements of \<open>xs\<close> in the order of their first occurrence.
\<close>

definition first_index :: "'a list \<Rightarrow> 'a \<Rightarrow> nat" where
  "first_index xs x = length (takeWhile (\<lambda>y. y \<noteq> x) xs)"

definition first_seen :: "'a list \<Rightarrow> 'a list" where
  "first_seen xs = rev (remdups (rev xs))"

section \<open>\<open>extract_sentences\<close>\<close>

text \<open>
  \<open>re.split(r'[.!?]+', s)\<close>. The search finds the first delimiter of \<open>s\<close>; the pattern
  matches the whole run of delimiters that starts there; the piece before the match is
  returned and the split goes on after the match. The rest after the last match is the last
  piece.
\<close>

definition is_delim :: "char \<Rightarrow> bool" where
  "is_delim c = (c = CHR ''.'' \<or> c = CHR ''!'' \<or> c = CHR ''?'')"

function re_split_delims :: "string \<Rightarrow> string list" where
  "re_split_delims s =
     (case dropWhile (\<lambda>c. \<not> is_delim c) s of
        [] \<Rightarrow> [s]
      | d # rest \<Rightarrow> takeWhile (\<lambda>c. \<not> is_delim c) s # re_split_delims (dropWhile is_delim rest))"
  by pat_completeness auto
termination
proof (relation "measure length")
  show "wf (measure length)" by simp
next
  fix s :: string and d rest
  assume "dropWhile (\<lambda>c. \<not> is_delim c) s = d # rest"
  then have "length s \<ge> Suc (length rest)"
    using length_dropWhile_le [of "\<lambda>c. \<not> is_delim c" s] by simp
  then show "(dropWhile is_delim rest, s) \<in> measure length"
    using length_dropWhile_le [of is_delim rest] by simp
qed

declare re_split_delims.simps [simp del]

text \<open>
  The comprehension \<open>[s.strip() for s in sentences if len(s.strip()) > 10]\<close>;
  \<^const>\<open>str_strip\<close> removes the white space at both ends.
\<close>

definition extract_sentences :: "string \<Rightarrow> string list" where
  "extract_sentences doc =
     map str_strip (filter (\<lambda>s. length (str_strip s) > 10) (re_split_delims doc))"

text \<open>
  For the statement about the split: the pieces put together again, with a run of delimiters
  between each piece and the next.
\<close>

fun join_pieces :: "string list \<Rightarrow> string list \<Rightarrow> string" where
  "join_pieces [] ds = []"
| "join_pieces (p # ps) [] = p"
| "join_pieces (p # ps) (d # ds) = p @ d @ join_pieces ps ds"

section \<open>The random source and the functions of \<open>random\<close>\<close>

text \<open>
  The module \<open>random\<close> draws every number it needs with \<open>_randbelow(n)\<close>, a number below
  \<open>n\<close>. The random source is a stream of natural numbers: a draw takes the next number of
  the stream, reduced below \<open>n\<close>, and leaves the rest of the stream. Every outcome below
  \<open>n\<close> is the draw of some stream, and a replay of the source is the same stream again.
\<close>

type_synonym rng = "nat stream"

definition randbelow :: "nat \<Rightarrow> rng \<Rightarrow> nat \<times> rng" where
  "randbelow n r = (shd r mod n, stl r)"

datatype py_error = IndexError | ValueError

text \<open>\<open>random.choice(seq)\<close>: \<open>IndexError\<close> on an empty sequence, else \<open>seq[_randbelow(len(seq))]\<close>.\<close>

definition choice :: "'a list \<Rightarrow> rng \<Rightarrow> py_error + ('a \<times> rng)" where
  "choice seq r =
     (if length seq = 0 then Inl IndexError
      else (case randbelow (length seq) r of (j, r') \<Rightarrow> Inr (seq ! j, r')))"

text \<open>
  \<open>random.shuffle(x)\<close>: for \<open>i\<close> from \<open>len(x) - 1\<close> down to 1, draw \<open>j\<close> below \<open>i + 1\<close> and
  exchange \<open>x[i]\<close> and \<open>x[j]\<close>. \<open>shuffle_from i\<close> is the loop from \<open>i\<close> down.
\<close>

fun shuffle_from :: "nat \<Rightarrow> 'a list \<Rightarrow> rng \<Rightarrow> 'a list \<times> rng" where
  "shuffle_from 0 x r = (x, r)"
| "shuffle_from (Suc i) x r =
     (case randbelow (Suc i + 1) r of
        (j, r') \<Rightarrow> shuffle_from i (x[Suc i := x ! j, j := x ! Suc i]) r')"

definition shuffle :: "'a list \<Rightarrow> rng \<Rightarrow> 'a list \<times> rng" where
  "shuffle x r = shuffle_from (length x - 1) x r"

text \<open>
  \<open>random.sample(population, k)\<close> for a population of at most 21 elements, where it selects
  from a copy of the population: \<open>ValueError\<close> when \<open>k\<close> is larger than the population; else,
  for \<open>i\<close> from 0 to \<open>k - 1\<close>, draw \<open>j\<close> below \<open>n - i\<close>, take \<open>pool[j]\<close> and move
  \<open>pool[n - i - 1]\<close> to position \<open>j\<close>. \<open>sample_loop n i m\<close> is the loop from \<open>i\<close> with \<open>m\<close>
  rounds to go.
\<close>

fun sample_loop :: "nat \<Rightarrow> nat \<Rightarrow> nat \<Rightarrow> 'a list \<Rightarrow> rng \<Rightarrow> 'a list \<times> rng" where
  "sample_loop n i 0 pool r = ([], r)"
| "sample_loop n i (Suc m) pool r =
     (case randbelow (n - i) r of
        (j, r') \<Rightarrow>
          (case sample_loop n (Suc i) m (pool[j := pool ! (n - i - 1)]) r' of
             (rest, r'') \<Rightarrow> (pool ! j # rest, r'')))"

definition sample :: "'a list \<Rightarrow> nat \<Rightarrow> rng \<Rightarrow> py_error + ('a list \<times> rng)" where
  "sample population k r =
     (let n = length population
      in if \<not> k \<le> n then Inl ValueError else Inr (sample_loop n 0 k population r))"

text \<open>\<open>list.index(x)\<close>: the first position of \<open>x\<close>, \<open>ValueError\<close> when there is none.\<close>

fun list_index :: "'a list \<Rightarrow> 'a \<Rightarrow> py_error + nat" where
  "list_index [] x = Inl ValueError"
| "list_index (y # ys) x =
     (if y = x then Inr 0
      else (case list_index ys x of Inl e \<Rightarrow> Inl e | Inr i \<Rightarrow> Inr (Suc i)))"

section \<open>\<open>generate_assignments\<close>\<close>

definition assignment_templates :: "string list" where
  "assignment_templates =
     [''Analyze the main themes in the following content: {}'',
      ''Discuss the key concepts and their relationships in: {}'',
      ''Evaluate the arguments presented in: {}'',
      ''Compare and contrast different viewpoints on: {}'',
      ''Explain the significance and implications of: {}'',
      ''Critically examine the evidence presented for: {}'',
      ''Describe the process or methodology outlined in: {}'',
      ''Assess the strengths and weaknesses of: {}'']"

text \<open>
  \<open>template.format(subject)\<close> for a template whose only braces are one replacement field
  \<open>{}\<close>, as in each of the eight templates: the field is replaced by the argument. Braces in
  the argument are not read.
\<close>

fun str_format :: "string \<Rightarrow> string \<Rightarrow> string" where
  "str_format [] a = []"
| "str_format [c] a = [c]"
| "str_format (c # d # cs) a =
     (if c = CHR ''{'' \<and> d = CHR ''}'' then a @ cs else c # str_format (d # cs) a)"

definition extract_main_subject :: "string \<Rightarrow> string" where
  "extract_main_subject doc =
     (let key_terms = extract_key_terms doc
      in if key_terms \<noteq> [] then ''the concept of '' @ key_terms ! 0
         else ''the given content'')"

text \<open>
  \<open>subject = topic if topic else self.extract_main_subject(text)\<close>: the topic is \<open>None\<close> or a
  string, and the empty string is false.
\<close>

definition subject_of :: "string \<Rightarrow> string option \<Rightarrow> string" where
  "subject_of doc topic =
     (case topic of
        None \<Rightarrow> extract_main_subject doc
      | Some t \<Rightarrow> if t \<noteq> [] then t else extract_main_subject doc)"

definition generate_assignments :: "string \<Rightarrow> string option \<Rightarrow> rng \<Rightarrow> py_error + (string list \<times> rng)" where
  "generate_assignments doc topic r =
     (let subject = subject_of doc topic
      in case sample assignment_templates 2 r of
           Inl e \<Rightarrow> Inl e
         | Inr (selected_templates, r') \<Rightarrow>
             Inr (map (\<lambda>template. str_format template subject) selected_templates, r'))"

text \<open>For the statements about the templates: the eight templates without their field.\<close>

definition template_prefixes :: "string list" where
  "template_prefixes = map (\<lambda>t. take (length t - 2) t) assignment_templates"

section \<open>The question strategies and \<open>generate_quiz_questions\<close>\<close>

text \<open>The dictionary a strategy returns, with its four keys.\<close>

record question_record =
  question :: string
  options :: "string list"
  correct_answer :: nat
  explanation :: string

definition create_fallback_question :: "string list \<Rightarrow> question_record" where
  "create_fallback_question sentences =
     \<lparr>question = ''What is the primary characteristic of the provided text?'',
      options = [''It contains informative content'',
                 ''It is completely empty'',
                 ''It consists only of numbers'',
                 ''It is written in a foreign language''],
      correct_answer = 0,
      explanation = ''The text provides information that can be analyzed.''\<rparr>"

text \<open>The strings of the Definition strategy for a term, and its options before the shuffle.\<close>

definition definition_question :: "string \<Rightarrow> string" where
  "definition_question t = ''What is the main focus regarding '' @ [CHR 39] @ t @ [CHR 39] @ '' in the text?''"

definition definition_correct_answer :: "string \<Rightarrow> string" where
  "definition_correct_answer t = ''The text discusses '' @ t @ '' in the context provided''"

definition definition_options :: "string \<Rightarrow> string list" where
  "definition_options t =
     [definition_correct_answer t,
      t @ '' is completely unrelated to the main topic'',
      t @ '' is mentioned only in passing without significance'',
      ''The text contradicts common understanding of '' @ t]"

definition definition_explanation :: "string \<Rightarrow> string" where
  "definition_explanation t = ''The correct answer focuses on how '' @ t @ '' relates to the main content.''"

definition create_definition_question ::
    "string list \<Rightarrow> string list \<Rightarrow> rng \<Rightarrow> py_error + (question_record \<times> rng)" where
  "create_definition_question sentences key_terms r =
     (if key_terms = [] then Inr (create_fallback_question sentences, r)
      else
        (case choice (take 5 key_terms) r of
           Inl e \<Rightarrow> Inl e
         | Inr (t, r1) \<Rightarrow>
             (case shuffle (definition_options t) r1 of
                (opts, r2) \<Rightarrow>
                  (case list_index opts (definition_correct_answer t) of
                     Inl e \<Rightarrow> Inl e
                   | Inr correct_index \<Rightarrow>
                       Inr (\<lparr>question = definition_question t,
                             options = opts,
                             correct_answer = correct_index,
                             explanation = definition_explanation t\<rparr>, r2)))))"

text \<open>The strings of the Comprehension strategy for a sentence.\<close>

definition comprehension_correct_answer :: "string \<Rightarrow> string" where
  "comprehension_correct_answer s = ''The text mentions: '' @ take 50 s @ ''...''"

definition comprehension_options :: "string \<Rightarrow> string list" where
  "comprehension_options s =
     [comprehension_correct_answer s,
      ''The text primarily focuses on historical events'',
      ''The content is mainly theoretical without practical application'',
      ''The text contradicts established principles in the field'']"

definition create_comprehension_question ::
    "string list \<Rightarrow> string list \<Rightarrow> rng \<Rightarrow> py_error + (question_record \<times> rng)" where
  "create_comprehension_question sentences key_terms r =
     (if sentences = [] then Inr (create_fallback_question sentences, r)
      else
        (case choice (take 3 sentences) r of
           Inl e \<Rightarrow> Inl e
         | Inr (sentence, r1) \<Rightarrow>
             (case shuffle (comprehension_options sentence) r1 of
                (opts, r2) \<Rightarrow>
                  (case list_index opts (comprehension_correct_answer sentence) of
                     Inl e \<Rightarrow> Inl e
                   | Inr correct_index \<Rightarrow>
                       Inr (\<lparr>question = ''According to the text, which statement is most accurate?'',
                             options = opts,
                             correct_answer = correct_index,
                             explanation = ''This option best reflects the content mentioned in the text.''\<rparr>,
                            r2)))))"

text \<open>The Inference strategy draws nothing: it passes the random source on.\<close>

definition create_inference_question ::
    "string list \<Rightarrow> string list \<Rightarrow> rng \<Rightarrow> py_error + (question_record \<times> rng)" where
  "create_inference_question sentences key_terms r =
     Inr (\<lparr>question = ''What can be inferred from the overall content?'',
           options = [''The content provides informative material on the topic'',
                      ''The text is purely fictional with no factual basis'',
                      ''The content contradicts all established knowledge'',
                      ''The text is primarily focused on entertainment''],
           correct_answer = 0,
           explanation = ''This inference is most reasonable based on the informative nature of the content.''\<rparr>,
          r)"

definition create_question ::
    "string list \<Rightarrow> string list \<Rightarrow> nat \<Rightarrow> rng \<Rightarrow> py_error + (question_record \<times> rng)" where
  "create_question sentences key_terms question_num r =
     (let question_types =
            [create_definition_question, create_comprehension_question, create_inference_question];
          question_type = question_types ! (question_num mod length question_types)
      in question_type sentences key_terms r)"

text \<open>The loop \<open>for i in range(3)\<close> of \<open>generate_quiz_questions\<close>, over the list of its indices.\<close>

fun questions_loop ::
    "string list \<Rightarrow> string list \<Rightarrow> nat list \<Rightarrow> rng \<Rightarrow> py_error + (question_record list \<times> rng)" where
  "questions_loop sentences key_terms [] r = Inr ([], r)"
| "questions_loop sentences key_terms (i # rest) r =
     (case create_question sentences key_terms i r of
        Inl e \<Rightarrow> Inl e
      | Inr (question_data, r') \<Rightarrow>
          (case questions_loop sentences key_terms rest r' of
             Inl e \<Rightarrow> Inl e
           | Inr (questions, r'') \<Rightarrow> Inr (question_data # questions, r'')))"

definition generate_quiz_questions :: "string \<Rightarrow> rng \<Rightarrow> py_error + (question_record list \<times> rng)" where
  "generate_quiz_questions doc r =
     (let sentences = extract_sentences doc;
          key_terms = extract_key_terms doc
      in questions_loop sentences key_terms [0..<3] r)"

text \<open>
  The two calls of \<open>main\<close> for one request, in their order: the assignments, then the quiz
  questions, drawing from the same random source one after the other.
\<close>

definition generate ::
    "string \<Rightarrow> string option \<Rightarrow> rng \<Rightarrow> py_error + (string list \<times> question_record list \<times> rng)" where
  "generate doc topic r =
     (case generate_assignments doc topic r of
        Inl e \<Rightarrow> Inl e
      | Inr (assignments, r1) \<Rightarrow>
          (case generate_quiz_questions doc r1 of
             Inl e \<Rightarrow> Inl e
           | Inr (quiz_questions, r2) \<Rightarrow> Inr (assignments, quiz_questions, r2)))"

section \<open>The tokenizer finds the letter-only runs of word characters\<close>

lemma letter_is_word: "is_ascii_letter c \<Longrightarrow> is_word_char c"
  by (auto simp: is_ascii_letter_def is_word_char_def)

lemma char_at_nth: "char_at s i = (if i < length s then Some (s ! i) else None)"
  by (induction s i rule: char_at.induct) auto

lemma no_boundary_letters:
  "letter_at s i \<Longrightarrow> letter_at s (Suc i) \<Longrightarrow> \<not> word_boundary (char_at s i) (char_at s (Suc i))"
  by (simp add: letter_at_def char_at_nth word_boundary_def opt_word_def letter_is_word)

lemma backtrack_inside:
  "(\<And>j. j \<le> Suc k \<Longrightarrow> letter_at s j) \<Longrightarrow> backtrack s k = None"
proof (induction k)
  case 0
  then show ?case using no_boundary_letters [of s 0] by simp
next
  case (Suc k)
  have "\<not> word_boundary (char_at s (Suc k)) (char_at s (Suc (Suc k)))"
    using Suc.prems by (intro no_boundary_letters) auto
  moreover have "backtrack s k = None"
    using Suc.prems by (intro Suc.IH) auto
  ultimately show ?case by simp
qed

lemma backtrack_top:
  assumes "\<And>j. j \<le> k \<Longrightarrow> letter_at s j"
  shows "backtrack s k = (if word_boundary (char_at s k) (char_at s (Suc k)) then Some k else None)"
proof (cases k)
  case 0
  then show ?thesis by simp
next
  case (Suc m)
  have "backtrack s m = None" using assms Suc by (intro backtrack_inside) auto
  then show ?thesis using Suc by simp
qed

lemma letters_run:
  assumes "is_ascii_letter c" "j \<le> length (takeWhile is_ascii_letter cs)"
  shows "letter_at (c # cs) j"
proof (cases j)
  case 0
  then show ?thesis using assms by (simp add: letter_at_def)
next
  case (Suc i)
  then have i: "i < length (takeWhile is_ascii_letter cs)" using assms by simp
  then have "i < length cs" using length_takeWhile_le [of is_ascii_letter cs] by linarith
  moreover have "is_ascii_letter (cs ! i)"
    using i nth_mem [OF i] takeWhile_nth [OF i] set_takeWhileD by metis
  ultimately show ?thesis using Suc by (simp add: letter_at_def)
qed

lemma match_here_letter:
  assumes "is_ascii_letter c"
  shows "match_here prev c cs =
    (if word_boundary prev (Some c) \<and>
        word_boundary (char_at (c # cs) (length (takeWhile is_ascii_letter cs)))
                      (char_at cs (length (takeWhile is_ascii_letter cs)))
     then Some (length (takeWhile is_ascii_letter cs)) else None)"
  using assms backtrack_top [of "length (takeWhile is_ascii_letter cs)" "c # cs"] letters_run [OF assms]
  by (simp add: match_here_def)

lemma char_at_run_last:
  assumes "is_ascii_letter c"
  shows "opt_word (char_at (c # cs) (length (takeWhile is_ascii_letter cs)))"
  using letters_run [OF assms, of "length (takeWhile is_ascii_letter cs)" cs]
  by (simp add: letter_at_def char_at_nth opt_word_def letter_is_word)

lemma run_then_nonword:
  "\<not> opt_word (char_at cs (length (takeWhile is_ascii_letter cs))) \<Longrightarrow>
   takeWhile is_word_char cs = takeWhile is_ascii_letter cs \<and>
   dropWhile is_word_char cs = dropWhile is_ascii_letter cs"
  by (induction cs) (auto simp: opt_word_def letter_is_word split: if_splits)

lemma run_then_word:
  "opt_word (char_at cs (length (takeWhile is_ascii_letter cs))) \<Longrightarrow>
   \<not> list_all is_ascii_letter (takeWhile is_word_char cs)"
  by (induction cs) (auto simp: opt_word_def letter_is_word split: if_splits)

lemma dropWhile_word_after_run:
  "\<not> opt_word (char_at cs (length (takeWhile is_ascii_letter cs))) \<Longrightarrow>
   dropWhile is_word_char (dropWhile is_ascii_letter cs) = dropWhile is_ascii_letter cs"
  by (induction cs) (auto simp: opt_word_def letter_is_word split: if_splits)

lemma findall_words_runs:
  "findall_words prev s =
     filter (list_all is_ascii_letter)
       (word_runs (if opt_word prev then dropWhile is_word_char s else s))"
proof (induction s arbitrary: prev rule: length_induct)
  case (1 s)
  note IH = 1 [rule_format]
  show ?case
  proof (cases s)
    case Nil
    then show ?thesis by simp
  next
    case (Cons c cs)
    let ?n = "length (takeWhile is_ascii_letter cs)"
    let ?L = "is_ascii_letter c"
    have rest_after_c: "findall_words (Some c) cs =
        filter (list_all is_ascii_letter)
          (word_runs (if is_word_char c then dropWhile is_word_char cs else cs))"
      using IH [of cs "Some c"] Cons by (simp add: opt_word_def)
    show ?thesis
    proof (cases ?L)
      case False
      then have none: "match_here prev c cs = None" by (simp add: match_here_def)
      show ?thesis using none rest_after_c False Cons by (simp add: opt_word_def split: option.splits)
    next
      case True
      then have w: "is_word_char c" by (rule letter_is_word)
      let ?e = "opt_word (char_at cs ?n)"
      have m: "match_here prev c cs = (if \<not> opt_word prev \<and> \<not> ?e then Some ?n else None)"
        using match_here_letter [OF True, of prev cs] char_at_run_last [OF True, of cs] w
        by (simp add: word_boundary_def) (simp add: opt_word_def)
      show ?thesis
      proof (cases ?e)
        case e: True
        have "match_here prev c cs = None" using m e by simp
        moreover have "\<not> list_all is_ascii_letter (takeWhile is_word_char cs)"
          using e by (rule run_then_word)
        ultimately show ?thesis using rest_after_c w Cons by simp
      next
        case e: False
        let ?p = "opt_word prev"
        show ?thesis
        proof (cases ?p)
          case True
          then have "match_here prev c cs = None" using m by simp
          then show ?thesis using rest_after_c w Cons True by simp
        next
          case False
          have mm: "match_here prev c cs = Some ?n" using m e False by simp
          have len: "length (dropWhile is_ascii_letter cs) < length s"
            using Cons length_dropWhile_le [of is_ascii_letter cs] by simp
          have rest: "findall_words (char_at (c # cs) ?n) (drop ?n cs) =
              filter (list_all is_ascii_letter) (word_runs (dropWhile is_ascii_letter cs))"
            using IH [OF len, of "char_at (c # cs) ?n"] char_at_run_last [OF \<open>?L\<close>, of cs]
              dropWhile_word_after_run [OF e]
            by (simp add: dropWhile_eq_drop [symmetric])
          have tk: "take ?n cs = takeWhile is_ascii_letter cs"
            by (simp add: takeWhile_eq_take [symmetric])
          have la: "list_all is_ascii_letter (takeWhile is_ascii_letter cs)"
            by (simp add: list_all_iff) (meson set_takeWhileD)
          show ?thesis
            using mm rest tk la run_then_nonword [OF e] w \<open>?L\<close> False Cons by simp
        qed
      qed
    qed
  qed
qed

lemma re_findall_words_runs:
  "re_findall_words s = filter (list_all is_ascii_letter) (word_runs s)"
  by (simp add: re_findall_words_def findall_words_runs opt_word_def)

text \<open>
  Claim C2, as amended. The tokens of a text are the maximal runs of word characters
  (letters, digits, the underscore) of the lowercased text that hold ASCII letters only, in
  order. So a character that is not a word character separates tokens and is dropped, and a
  digit next to a letter does not split the run: it keeps the whole run out of the tokens.
\<close>

theorem words_are_letter_runs:
  "words doc = filter (list_all is_ascii_letter) (word_runs (str_lower doc))"
  by (simp add: words_def re_findall_words_runs)

theorem words_are_letter_runs_witness:
  "words ''Ab c1 de-f'' = [''ab'', ''de'', ''f''] \<and>
   filter (list_all is_ascii_letter) (word_runs (str_lower ''Ab c1 de-f'')) = [''ab'', ''de'', ''f'']"
proof -
  have "words ''Ab c1 de-f'' = [''ab'', ''de'', ''f'']" by code_simp
  then show ?thesis using words_are_letter_runs [of "''Ab c1 de-f''"] by simp
qed

text \<open>
  Claim C2, as stated, fails: in \<open>abc123def\<close> the letters and the digits are one run of word
  characters, \<open>\b\<close> holds at neither end of \<open>abc\<close> or \<open>def\<close> inside it, and the text has no
  token at all.
\<close>

theorem mixed_token_counterexample:
  "\<not> (''abc'' \<in> set (words ''abc123def'') \<and> ''def'' \<in> set (words ''abc123def''))"
proof -
  have "words ''abc123def'' = []" by code_simp
  then show ?thesis by simp
qed

section \<open>The ranking of key terms\<close>

lemma first_seen_snoc:
  "first_seen (xs @ [x]) = (if x \<in> set xs then first_seen xs else first_seen xs @ [x])"
  by (simp add: first_seen_def)

lemma set_first_seen: "set (first_seen xs) = set xs"
  by (simp add: first_seen_def)

lemma distinct_first_seen: "distinct (first_seen xs)"
  by (simp add: first_seen_def)

lemma dict_incr_map:
  "distinct ks \<Longrightarrow>
   dict_incr (map (\<lambda>k. (k, f k)) ks) x =
     (if x \<in> set ks then map (\<lambda>k. (k, if k = x then f k + 1 else f k)) ks
      else map (\<lambda>k. (k, f k)) ks @ [(x, 1)])"
  by (induction ks) auto

lemma count_list_snoc: "count_list (xs @ [x]) k = count_list xs k + (if k = x then 1 else 0)"
  by (induction xs) auto

lemma term_freq_items:
  "foldl dict_incr [] xs = map (\<lambda>k. (k, count_list xs k)) (first_seen xs)"
proof (induction xs rule: rev_induct)
  case Nil
  show ?case by (simp add: first_seen_def)
next
  case (snoc x xs)
  have notin: "x \<notin> set xs \<Longrightarrow> count_list xs x = 0" by (simp add: count_list_0_iff)
  show ?case
    using snoc dict_incr_map [OF distinct_first_seen, of "count_list xs" xs x] notin
    by (auto simp: first_seen_snoc set_first_seen count_list_snoc)
qed

lemma first_index_snoc: "a \<in> set xs \<Longrightarrow> first_index (xs @ [x]) a = first_index xs a"
  by (simp add: first_index_def)


lemma first_index_less: "a \<in> set xs \<Longrightarrow> first_index xs a < length xs"
  by (induction xs) (auto simp: first_index_def)

lemma first_index_new: "x \<notin> set xs \<Longrightarrow> first_index (xs @ [x]) x = length xs"
  by (induction xs) (auto simp: first_index_def)

lemma first_seen_filter_order:
  "sorted_wrt (\<lambda>a b. first_index ws a < first_index ws b) (first_seen (filter P ws))"
proof (induction ws rule: rev_induct)
  case Nil
  show ?case by (simp add: first_seen_def)
next
  case (snoc w ws)
  let ?ks = "first_seen (filter P ws)"
  have sub: "\<And>a. a \<in> set ?ks \<Longrightarrow> a \<in> set ws" by (auto simp: set_first_seen)
  have old: "sorted_wrt (\<lambda>a b. first_index (ws @ [w]) a < first_index (ws @ [w]) b) ?ks"
    by (intro sorted_wrt_mono_rel [OF _ snoc]) (simp add: first_index_snoc sub)
  let ?new = "P w \<and> w \<notin> set ws"
  show ?case
  proof (cases ?new)
    case True
    then have "first_seen (filter P (ws @ [w])) = ?ks @ [w]"
      by (simp add: first_seen_snoc)
    moreover have "\<And>a. a \<in> set ?ks \<Longrightarrow> first_index (ws @ [w]) a < first_index (ws @ [w]) w"
      using True by (simp add: first_index_snoc first_index_new first_index_less sub)
    ultimately show ?thesis using old by (simp add: sorted_wrt_append)
  next
    case False
    then have "first_seen (filter P (ws @ [w])) = ?ks"
      by (auto simp: first_seen_snoc)
    then show ?thesis using old by simp
  qed
qed

lemma count_list_filter: "P k \<Longrightarrow> count_list (filter P ws) k = count_list ws k"
  by (induction ws) auto

lemma insort_key_lex:
  assumes "sorted_wrt (\<lambda>a b. key a < key b \<or> (key a = key b \<and> R a b)) zs"
    and "\<And>z. z \<in> set zs \<Longrightarrow> R y z"
  shows "sorted_wrt (\<lambda>a b. key a < key b \<or> (key a = key b \<and> R a b)) (insort_key key y zs)"
  using assms
proof (induction zs)
  case Nil
  show ?case by simp
next
  case (Cons z zs)
  show ?case using Cons by (auto simp: set_insort_key) 
qed

lemma sort_key_lex:
  fixes key :: "'a \<Rightarrow> nat"
  shows "sorted_wrt R ys \<Longrightarrow>
    sorted_wrt (\<lambda>a b. key a < key b \<or> (key a = key b \<and> R a b)) (sort_key key ys)"
proof (induction ys)
  case Nil
  show ?case by simp
next
  case (Cons y ys)
  then show ?case by (auto intro!: insort_key_lex)
qed

lemma sorted_desc_lex:
  fixes key :: "'a \<Rightarrow> nat"
  assumes "sorted_wrt R xs"
  shows "sorted_wrt (\<lambda>a b. key b < key a \<or> (key a = key b \<and> R a b)) (sorted_desc key xs)"
proof -
  have "sorted_wrt (\<lambda>a b. R b a) (rev xs)" using assms by (simp add: sorted_wrt_rev)
  then have "sorted_wrt (\<lambda>a b. key a < key b \<or> (key a = key b \<and> R b a)) (sort_key key (rev xs))"
    by (rule sort_key_lex)
  then show ?thesis
    unfolding sorted_desc_def sorted_wrt_rev
    by (rule sorted_wrt_mono_rel [rotated]) auto
qed

lemma set_sorted_desc: "set (sorted_desc key xs) = set xs"
  by (simp add: sorted_desc_def)

lemma sorted_wrt_irrefl_distinct': "sorted_wrt R xs \<Longrightarrow> (\<And>a. \<not> R a a) \<Longrightarrow> distinct xs"
  by (induction xs) auto


lemma lower_char_not_upper: "\<not> code_in 65 90 (lower_char c)"
  by (auto simp: lower_char_def code_in_def)

lemma word_runs_chars: "r \<in> set (word_runs s) \<Longrightarrow> set r \<subseteq> set s"
proof (induction s rule: word_runs.induct)
  case 1
  then show ?case by simp
next
  case (2 c cs)
  then show ?case
    by (auto split: if_splits dest: set_takeWhileD set_dropWhileD)
qed

lemma words_lowercase:
  assumes "w \<in> set (words doc)"
  shows "list_all is_lower_letter w"
proof -
  have letters: "list_all is_ascii_letter w" and run: "w \<in> set (word_runs (str_lower doc))"
    using assms by (auto simp: words_def re_findall_words_runs)
  have "set w \<subseteq> lower_char ` set doc"
    using word_runs_chars [OF run] by (simp add: str_lower_def)
  then have "\<And>c. c \<in> set w \<Longrightarrow> \<not> code_in 65 90 c"
    using lower_char_not_upper by auto
  then show ?thesis
    using letters by (auto simp: list_all_iff is_ascii_letter_def is_lower_letter_def)
qed

lemma extract_key_terms_unfold:
  "extract_key_terms doc =
     map fst (take 10 (sorted_desc snd
       (map (\<lambda>k. (k, count_list (words doc) k)) (first_seen (filter is_key_term (words doc))))))"
proof -
  have eq: "map (\<lambda>k. (k, count_list (filter is_key_term (words doc)) k)) (first_seen (filter is_key_term (words doc)))
      = map (\<lambda>k. (k, count_list (words doc) k)) (first_seen (filter is_key_term (words doc)))"
    by (rule map_cong) (auto simp: set_first_seen count_list_filter)
  show ?thesis by (simp only: extract_key_terms_def Let_def term_freq_items eq)
qed

lemma extract_key_terms_subset:
  "set (extract_key_terms doc) \<subseteq> {w \<in> set (words doc). is_key_term w}"
proof -
  have "set (extract_key_terms doc) \<subseteq> fst ` set (sorted_desc snd
       (map (\<lambda>k. (k, count_list (words doc) k)) (first_seen (filter is_key_term (words doc)))))"
    unfolding extract_key_terms_unfold by (auto dest: in_set_takeD)
  then show ?thesis by (auto simp: set_sorted_desc set_first_seen)
qed

lemma extract_key_terms_sorted:
  "sorted_wrt (\<lambda>a b. count_list (words doc) b < count_list (words doc) a \<or>
        (count_list (words doc) a = count_list (words doc) b \<and>
         first_index (words doc) a < first_index (words doc) b))
     (extract_key_terms doc)"
proof -
  let ?ws = "words doc"
  let ?items = "map (\<lambda>k. (k, count_list ?ws k)) (first_seen (filter is_key_term ?ws))"
  let ?R = "\<lambda>a b. first_index ?ws (fst a) < first_index ?ws (fst b)"
  have "sorted_wrt ?R ?items"
    using first_seen_filter_order [of ?ws is_key_term] by (simp add: sorted_wrt_map)
  then have "sorted_wrt (\<lambda>a b. snd b < snd a \<or> (snd a = snd b \<and> ?R a b)) (sorted_desc snd ?items)"
    by (rule sorted_desc_lex)
  then have "sorted_wrt (\<lambda>a b. count_list ?ws (fst b) < count_list ?ws (fst a) \<or>
        (count_list ?ws (fst a) = count_list ?ws (fst b) \<and> ?R a b)) (sorted_desc snd ?items)"
    by (rule sorted_wrt_mono_rel [rotated]) (auto simp: set_sorted_desc)
  then show ?thesis
    unfolding extract_key_terms_unfold by (simp add: sorted_wrt_map sorted_wrt_take)
qed

text \<open>
  Claim C3. For every text, \<open>extract_key_terms\<close> returns at most 10 terms; each is made of
  lowercase ASCII letters, is longer than 3 characters, is no stopword and occurs among the
  tokens of the text; no term occurs twice; and of two terms the earlier one has the higher
  frequency among the tokens, or the same frequency and the earlier first occurrence.
\<close>

theorem extract_key_terms_ranking:
  "length (extract_key_terms doc) \<le> 10 \<and>
   list_all (\<lambda>t. list_all is_lower_letter t \<and> 3 < length t \<and> t \<notin> set stopwords \<and>
                  0 < count_list (words doc) t) (extract_key_terms doc) \<and>
   distinct (extract_key_terms doc) \<and>
   sorted_wrt (\<lambda>a b. count_list (words doc) b < count_list (words doc) a \<or>
        (count_list (words doc) a = count_list (words doc) b \<and>
         first_index (words doc) a < first_index (words doc) b))
     (extract_key_terms doc)"
proof -
  have len: "length (extract_key_terms doc) \<le> 10"
    by (simp add: extract_key_terms_def)
  have each: "list_all (\<lambda>t. list_all is_lower_letter t \<and> 3 < length t \<and> t \<notin> set stopwords \<and>
                  0 < count_list (words doc) t) (extract_key_terms doc)"
  proof -
    have "\<And>t. t \<in> set (words doc) \<Longrightarrow> 0 < count_list (words doc) t"
      using count_list_0_iff [of "words doc"] by fastforce
    then show ?thesis
      using extract_key_terms_subset [of doc] words_lowercase [of _ doc]
      by (auto simp: list_all_iff is_key_term_def)
  qed
  have dist: "distinct (extract_key_terms doc)"
    using extract_key_terms_sorted [of doc] by (rule sorted_wrt_irrefl_distinct') simp
  show ?thesis using len each dist extract_key_terms_sorted [of doc] by blast
qed

theorem extract_key_terms_ranking_witness:
  "extract_key_terms ''Dogs bark. Cats purr; cats nap, dogs'' = [''dogs'', ''cats'', ''bark'', ''purr''] \<and>
   count_list (words ''Dogs bark. Cats purr; cats nap, dogs'') ''dogs'' = 2 \<and>
   count_list (words ''Dogs bark. Cats purr; cats nap, dogs'') ''bark'' = 1 \<and>
   sorted_wrt (\<lambda>a b. count_list (words ''Dogs bark. Cats purr; cats nap, dogs'') b
         < count_list (words ''Dogs bark. Cats purr; cats nap, dogs'') a \<or>
        (count_list (words ''Dogs bark. Cats purr; cats nap, dogs'') a
           = count_list (words ''Dogs bark. Cats purr; cats nap, dogs'') b \<and>
         first_index (words ''Dogs bark. Cats purr; cats nap, dogs'') a
           < first_index (words ''Dogs bark. Cats purr; cats nap, dogs'') b))
     [''dogs'', ''cats'', ''bark'', ''purr'']"
proof -
  have w: "words ''Dogs bark. Cats purr; cats nap, dogs'' =
      [''dogs'', ''bark'', ''cats'', ''purr'', ''cats'', ''nap'', ''dogs'']" by code_simp
  have e: "extract_key_terms ''Dogs bark. Cats purr; cats nap, dogs'' = [''dogs'', ''cats'', ''bark'', ''purr'']"
    by code_simp
  show ?thesis
    using extract_key_terms_ranking [of "''Dogs bark. Cats purr; cats nap, dogs''"]
    unfolding e by (simp add: w)
qed

section \<open>Sentences are the trimmed long pieces between delimiter runs\<close>

lemma list_all_takeWhile: "list_all P (takeWhile P xs)"
  by (induction xs) auto

lemma split_last:
  "dropWhile (\<lambda>c. \<not> is_delim c) s = [] \<Longrightarrow> re_split_delims s = [s]"
  by (simp only: re_split_delims.simps [of s] list.case)

lemma split_step:
  "dropWhile (\<lambda>c. \<not> is_delim c) s = d # rest \<Longrightarrow>
   re_split_delims s = takeWhile (\<lambda>c. \<not> is_delim c) s # re_split_delims (dropWhile is_delim rest)"
  by (simp only: re_split_delims.simps [of s] list.case)

lemma rev_split_while:
  "xs = rev (dropWhile P (rev xs)) @ rev (takeWhile P (rev xs))"
  by (metis rev_append rev_rev_ident takeWhile_dropWhile_id)

lemma strip_decompose:
  "\<exists>l r. p = l @ str_strip p @ r \<and> list_all is_space_char l \<and> list_all is_space_char r"
proof -
  let ?a = "dropWhile is_space_char p"
  have 1: "p = takeWhile is_space_char p @ ?a" by simp
  have "?a = rev (dropWhile is_space_char (rev ?a)) @ rev (takeWhile is_space_char (rev ?a))"
    by (rule rev_split_while)
  then have "p = takeWhile is_space_char p @ str_strip p @ rev (takeWhile is_space_char (rev ?a))"
    using 1 by (simp add: str_strip_def)
  moreover have "list_all is_space_char (takeWhile is_space_char p)"
    by (rule list_all_takeWhile)
  moreover have "list_all is_space_char (rev (takeWhile is_space_char (rev ?a)))"
    using list_all_takeWhile [of is_space_char "rev ?a"] by (simp add: list_all_iff)
  ultimately show ?thesis by blast
qed

lemma strip_ends:
  "str_strip p = [] \<or>
   (\<not> is_space_char (hd (str_strip p)) \<and> \<not> is_space_char (last (str_strip p)))"
proof -
  let ?a = "dropWhile is_space_char p"
  let ?b = "dropWhile is_space_char (rev ?a)"
  have s: "str_strip p = rev ?b" by (simp add: str_strip_def)
  show ?thesis
  proof (cases ?b)
    case Nil
    then show ?thesis using s by simp
  next
    case (Cons x xs)
    then have x: "\<not> is_space_char x" using hd_dropWhile [of is_space_char "rev ?a"] by simp
    have lastb: "last (str_strip p) = x" using s Cons by simp
    have "?a \<noteq> []"
    proof
      assume "?a = []"
      then have "?b = []" by (simp only: rev.simps dropWhile.simps)
      then show False using Cons by simp
    qed
    then have ha: "\<not> is_space_char (hd ?a)" using hd_dropWhile [of is_space_char p] by simp
    have "?a = rev ?b @ rev (takeWhile is_space_char (rev ?a))"
      by (rule rev_split_while)
    then have "hd ?a = hd (rev ?b)" using Cons by (metis hd_append2 rev_is_Nil_conv list.distinct(1))
    then show ?thesis using s x lastb ha by simp
  qed
qed


lemma split_pieces_join:
  "\<exists>ds. length (re_split_delims s) = Suc (length ds) \<and>
        list_all (\<lambda>d. d \<noteq> [] \<and> list_all is_delim d) ds \<and>
        join_pieces (re_split_delims s) ds = s"
proof (induction s rule: re_split_delims.induct)
  case (1 s)
  let ?N = "\<lambda>c. \<not> is_delim c"
  show ?case
  proof (cases "dropWhile ?N s")
    case Nil
    then have "re_split_delims s = [s]" by (rule split_last)
    then have "length (re_split_delims s) = Suc (length ([] :: string list)) \<and>
        list_all (\<lambda>d. d \<noteq> [] \<and> list_all is_delim d) [] \<and>
        join_pieces (re_split_delims s) [] = s" by simp
    then show ?thesis by blast
  next
    case (Cons d rest)
    let ?s' = "dropWhile is_delim rest"
    let ?run = "d # takeWhile is_delim rest"
    obtain ds where ds: "length (re_split_delims ?s') = Suc (length ds)"
        "list_all (\<lambda>d. d \<noteq> [] \<and> list_all is_delim d) ds"
        "join_pieces (re_split_delims ?s') ds = ?s'"
      using 1 [OF Cons] by blast
    have d: "is_delim d" using hd_dropWhile [of ?N s] Cons by simp
    have run: "list_all is_delim ?run"
      using d list_all_takeWhile [of is_delim rest] by simp
    have eq: "re_split_delims s = takeWhile ?N s # re_split_delims ?s'"
      using Cons by (rule split_step)
    have "s = takeWhile ?N s @ dropWhile ?N s" by simp
    then have s: "s = takeWhile ?N s @ ?run @ ?s'" using Cons by simp
    have "length (re_split_delims s) = Suc (length (?run # ds)) \<and>
        list_all (\<lambda>d. d \<noteq> [] \<and> list_all is_delim d) (?run # ds) \<and>
        join_pieces (re_split_delims s) (?run # ds) = s"
      using ds run eq s by simp
    then show ?thesis by blast
  qed
qed

lemma split_pieces_no_delim:
  "list_all (\<lambda>p. \<not> list_ex is_delim p) (re_split_delims s)"
proof (induction s rule: re_split_delims.induct)
  case (1 s)
  let ?N = "\<lambda>c. \<not> is_delim c"
  have tw: "\<not> list_ex is_delim (takeWhile ?N s)"
    using list_all_takeWhile [of ?N s] by (simp add: list_ex_iff list_all_iff)
  show ?case
  proof (cases "dropWhile ?N s")
    case Nil
    then have "takeWhile ?N s = s" by (metis takeWhile_dropWhile_id append_Nil2)
    then show ?thesis using tw split_last [OF Nil] by (simp add: list_ex_iff)
  next
    case (Cons d rest)
    then show ?thesis using tw 1 [OF Cons] split_step [OF Cons] by simp
  qed
qed

lemma split_first_piece:
  "s \<noteq> [] \<Longrightarrow> \<not> is_delim (hd s) \<Longrightarrow> hd (re_split_delims s) \<noteq> []"
proof -
  assume a: "s \<noteq> []" "\<not> is_delim (hd s)"
  then have tw: "takeWhile (\<lambda>c. \<not> is_delim c) s \<noteq> []" by (cases s) auto
  show ?thesis
  proof (cases "dropWhile (\<lambda>c. \<not> is_delim c) s")
    case Nil
    then show ?thesis using split_last [OF Nil] a by simp
  next
    case (Cons d rest)
    then show ?thesis using split_step [OF Cons] tw by simp
  qed
qed

lemma split_inner_nonempty:
  "list_all (\<lambda>p. p \<noteq> []) (butlast (tl (re_split_delims s)))"
proof (induction s rule: re_split_delims.induct)
  case (1 s)
  let ?N = "\<lambda>c. \<not> is_delim c"
  show ?case
  proof (cases "dropWhile ?N s")
    case Nil
    then show ?thesis using split_last [OF Nil] by simp
  next
    case (Cons d rest)
    let ?s' = "dropWhile is_delim rest"
    have tl: "tl (re_split_delims s) = re_split_delims ?s'"
      using split_step [OF Cons] by simp
    have IH: "list_all (\<lambda>p. p \<noteq> []) (butlast (tl (re_split_delims ?s')))" using 1 [OF Cons] .
    let ?e = "?s' = []"
    show ?thesis
    proof (cases ?e)
      case True
      then have "re_split_delims ?s' = re_split_delims []" by (rule arg_cong)
      also have "\<dots> = [[]]" by (rule split_last) simp
      finally show ?thesis using tl by simp
    next
      case False
      then have "\<not> is_delim (hd ?s')" using hd_dropWhile [of is_delim rest] by simp
      then have h: "hd (re_split_delims ?s') \<noteq> []" using False by (rule split_first_piece [rotated])
      obtain p ps where pp: "re_split_delims ?s' = p # ps"
        using split_pieces_join [of ?s'] by (cases "re_split_delims ?s'") auto
      show ?thesis using tl IH h pp by (cases ps) auto
    qed
  qed
qed

text \<open>
  Claim C8. \<open>extract_sentences\<close> splits the text at the maximal runs of \<open>.\<close>, \<open>!\<close> and \<open>?\<close>:
  the text is its pieces with a non-empty run of delimiters between each piece and the next,
  no piece holds a delimiter, and no piece but the first and the last is empty. The result
  is the trimmed pieces that are longer than 10 characters when trimmed, in the order of
  the text. Trimming a piece removes white space at its ends only, and what is left neither
  starts nor ends with white space.
\<close>

theorem extract_sentences_split:
  "(\<exists>ds. length (re_split_delims doc) = Suc (length ds) \<and>
         list_all (\<lambda>d. d \<noteq> [] \<and> list_all is_delim d) ds \<and>
         join_pieces (re_split_delims doc) ds = doc) \<and>
   list_all (\<lambda>p. \<not> list_ex is_delim p) (re_split_delims doc) \<and>
   list_all (\<lambda>p. p \<noteq> []) (butlast (tl (re_split_delims doc))) \<and>
   extract_sentences doc =
     map str_strip (filter (\<lambda>p. 10 < length (str_strip p)) (re_split_delims doc)) \<and>
   list_all (\<lambda>s. 10 < length s \<and> \<not> is_space_char (hd s) \<and> \<not> is_space_char (last s))
     (extract_sentences doc) \<and>
   (\<exists>l r. p = l @ str_strip p @ r \<and> list_all is_space_char l \<and> list_all is_space_char r)"
proof -
  have trimmed: "list_all (\<lambda>s. 10 < length s \<and> \<not> is_space_char (hd s) \<and> \<not> is_space_char (last s))
     (extract_sentences doc)"
  proof -
    have "\<not> is_space_char (hd (str_strip q)) \<and> \<not> is_space_char (last (str_strip q))"
      if "10 < length (str_strip q)" for q
    proof -
      have "str_strip q \<noteq> []" using that by auto
      then show ?thesis using strip_ends [of q] by blast
    qed
    then show ?thesis by (auto simp: extract_sentences_def list_all_iff)
  qed
  show ?thesis
    using split_pieces_join [of doc] split_pieces_no_delim [of doc] split_inner_nonempty [of doc]
      trimmed strip_decompose [of p]
    by (simp add: extract_sentences_def)
qed

theorem extract_sentences_split_witness:
  "re_split_delims '' Wait for me here!? no. '' = ['' Wait for me here'', '' no'', '' ''] \<and>
   extract_sentences '' Wait for me here!? no. '' = [''Wait for me here''] \<and>
   list_all (\<lambda>p. \<not> list_ex is_delim p) (re_split_delims '' Wait for me here!? no. '') \<and>
   list_all (\<lambda>s. 10 < length s \<and> \<not> is_space_char (hd s) \<and> \<not> is_space_char (last s))
     (extract_sentences '' Wait for me here!? no. '')"
proof -
  have 1: "re_split_delims '' Wait for me here!? no. '' = ['' Wait for me here'', '' no'', '' '']"
    by code_simp
  have 2: "extract_sentences '' Wait for me here!? no. '' = [''Wait for me here'']"
    by code_simp
  have 3: "list_all (\<lambda>p. \<not> list_ex is_delim p) (re_split_delims '' Wait for me here!? no. '')"
    and 4: "list_all (\<lambda>s. 10 < length s \<and> \<not> is_space_char (hd s) \<and> \<not> is_space_char (last s))
     (extract_sentences '' Wait for me here!? no. '')"
    using extract_sentences_split [of "'' Wait for me here!? no. ''" "[]"] by blast+
  show ?thesis using 1 2 3 4 by (intro conjI)
qed

section \<open>The functions of \<open>random\<close>\<close>

lemma choice_draw:
  "seq \<noteq> [] \<Longrightarrow> choice seq r = Inr (seq ! (shd r mod length seq), stl r)"
  by (simp add: choice_def randbelow_def)

lemma shuffle_from_state: "snd (shuffle_from k x r) = sdrop k r"
  by (induction k arbitrary: x r) (simp_all add: randbelow_def)

lemma shuffle_from_mset:
  "k < length x \<Longrightarrow> mset (fst (shuffle_from k x r)) = mset x"
proof (induction k arbitrary: x r)
  case 0
  show ?case by simp
next
  case (Suc k)
  let ?j = "shd r mod (Suc k + 1)"
  have j: "?j < length x"
    using Suc.prems mod_less_divisor [of "Suc k + 1" "shd r"] by linarith
  have "mset (x[Suc k := x ! ?j, ?j := x ! Suc k]) = mset x"
    using Suc.prems j by (simp add: mset_swap)
  then show ?case using Suc by (simp add: randbelow_def)
qed

lemma shuffle_from_prefix:
  "stake k r = stake k r' \<Longrightarrow> fst (shuffle_from k x r) = fst (shuffle_from k x r')"
proof (induction k arbitrary: x r r')
  case 0
  show ?case by simp
next
  case (Suc k)
  have hd: "shd r = shd r'" and tl: "stake k (stl r) = stake k (stl r')"
    using Suc.prems by simp_all
  let ?j = "shd r mod (Suc k + 1)"
  have "fst (shuffle_from k (x[Suc k := x ! ?j, ?j := x ! Suc k]) (stl r)) =
        fst (shuffle_from k (x[Suc k := x ! ?j, ?j := x ! Suc k]) (stl r'))"
    using tl by (rule Suc.IH)
  then show ?case by (simp add: randbelow_def hd [symmetric])
qed

lemma shuffle_state: "snd (shuffle x r) = sdrop (length x - 1) r"
  by (simp add: shuffle_def shuffle_from_state)

lemma shuffle_mset: "mset (fst (shuffle x r)) = mset x"
proof (cases x)
  case Nil
  then show ?thesis by (simp add: shuffle_def)
next
  case (Cons a as)
  then show ?thesis by (simp add: shuffle_def shuffle_from_mset)
qed

lemma shuffle_prefix:
  "stake (length x - 1) r = stake (length x - 1) r' \<Longrightarrow> fst (shuffle x r) = fst (shuffle x r')"
  unfolding shuffle_def by (rule shuffle_from_prefix)

lemma list_index_first:
  "x \<in> set xs \<Longrightarrow> list_index xs x = Inr (first_index xs x)"
  by (induction xs) (auto simp: first_index_def)

lemma first_index_nth: "x \<in> set xs \<Longrightarrow> xs ! first_index xs x = x"
  by (induction xs) (auto simp: first_index_def)

lemma distinct_count_one: "distinct xs \<Longrightarrow> x \<in> set xs \<Longrightarrow> count_list xs x = 1"
  by (induction xs) (auto simp: count_list_0_iff)

lemma sample_two:
  assumes "2 \<le> length xs"
  shows "sample xs 2 r =
    Inr ([xs ! (shd r mod length xs),
          xs[shd r mod length xs := xs ! (length xs - 1)] ! (shd (stl r) mod (length xs - 1))],
         stl (stl r))"
proof -
  have "sample_loop (length xs) 0 (Suc (Suc 0)) xs r =
    ([xs ! (shd r mod length xs),
          xs[shd r mod length xs := xs ! (length xs - 1)] ! (shd (stl r) mod (length xs - 1))],
         stl (stl r))"
    by (simp add: randbelow_def)
  then show ?thesis using assms by (simp add: sample_def Let_def numeral_2_eq_2 [symmetric])
qed

section \<open>Two prompts from two templates\<close>

lemma str_format_field:
  "CHR ''{'' \<notin> set pre \<Longrightarrow> str_format (pre @ ''{}'') a = pre @ a"
proof (induction pre)
  case Nil
  show ?case by simp
next
  case (Cons c pre)
  then show ?case by (cases pre) auto
qed

lemma templates_length: "length assignment_templates = 8"
  by (simp add: assignment_templates_def)

lemma templates_shape:
  "assignment_templates = map (\<lambda>p. p @ ''{}'') template_prefixes"
  by (simp add: template_prefixes_def assignment_templates_def)

lemma prefixes_distinct: "distinct template_prefixes"
  by (simp add: template_prefixes_def assignment_templates_def)

lemma prefixes_no_brace: "list_all (\<lambda>p. CHR ''{'' \<notin> set p) template_prefixes"
  by (simp add: template_prefixes_def assignment_templates_def)

lemma sample_two_positions:
  assumes "2 \<le> length xs"
  shows "\<exists>i j. i < length xs \<and> j < length xs \<and> i \<noteq> j \<and>
           sample xs 2 r = Inr ([xs ! i, xs ! j], stl (stl r))"
proof -
  let ?n = "length xs"
  let ?i = "shd r mod ?n"
  let ?k = "shd (stl r) mod (?n - 1)"
  let ?j = "if ?k = ?i then ?n - 1 else ?k"
  have i: "?i < ?n" using assms by (intro mod_less_divisor) linarith
  have k: "?k < ?n - 1" using assms by (intro mod_less_divisor) linarith
  have kn: "?k < ?n" using k by linarith
  have "?n - 1 < ?n" using assms by linarith
  then have j: "?j < ?n" using kn by presburger
  have ne: "?i \<noteq> ?j" using k by auto
  have "xs[?i := xs ! (?n - 1)] ! ?k = xs ! ?j"
    using i by (simp add: nth_list_update)
  then have "sample xs 2 r = Inr ([xs ! ?i, xs ! ?j], stl (stl r))"
    using sample_two [OF assms, of r] by simp
  then show ?thesis using i j ne by blast
qed

text \<open>
  Claim C5. For every text, topic and random source, \<open>generate_assignments\<close> returns
  exactly two prompts: the templates at two different positions of the pool of eight, which
  are two different templates, each formatted with the one subject of the call. The two
  prompts differ, and each contains the subject.
\<close>

theorem assignments_two_distinct:
  "\<exists>i j r'. i < length assignment_templates \<and> j < length assignment_templates \<and> i \<noteq> j \<and>
     assignment_templates ! i \<noteq> assignment_templates ! j \<and>
     generate_assignments doc topic r =
       Inr ([str_format (assignment_templates ! i) (subject_of doc topic),
             str_format (assignment_templates ! j) (subject_of doc topic)], r') \<and>
     str_format (assignment_templates ! i) (subject_of doc topic) \<noteq>
       str_format (assignment_templates ! j) (subject_of doc topic) \<and>
     sublist (subject_of doc topic) (str_format (assignment_templates ! i) (subject_of doc topic)) \<and>
     sublist (subject_of doc topic) (str_format (assignment_templates ! j) (subject_of doc topic))"
proof -
  let ?S = "subject_of doc topic"
  let ?T = assignment_templates
  obtain i j where ij: "i < length ?T" "j < length ?T" "i \<noteq> j"
      and s: "sample ?T 2 r = Inr ([?T ! i, ?T ! j], stl (stl r))"
    using sample_two_positions [of ?T r] by (auto simp: templates_length)
  have fmt: "str_format (?T ! k) ?S = template_prefixes ! k @ ?S" if "k < length ?T" for k
  proof -
    have "k < length template_prefixes" using that by (simp add: templates_shape)
    then have "CHR ''{'' \<notin> set (template_prefixes ! k)" and "?T ! k = template_prefixes ! k @ ''{}''"
      using prefixes_no_brace by (simp_all add: list_all_length templates_shape)
    then show ?thesis by (simp add: str_format_field)
  qed
  have pne: "template_prefixes ! i \<noteq> template_prefixes ! j"
    using ij prefixes_distinct by (simp add: nth_eq_iff_index_eq templates_shape)
  then have tne: "?T ! i \<noteq> ?T ! j" using ij by (simp add: templates_shape)
  have gen: "generate_assignments doc topic r =
       Inr ([str_format (?T ! i) ?S, str_format (?T ! j) ?S], stl (stl r))"
    using s by (simp add: generate_assignments_def Let_def)
  have sub: "sublist ?S (str_format (?T ! k) ?S)" if "k < length ?T" for k
    using fmt [OF that] by (simp add: sublist_def) (metis append_Nil2)
  have dif: "str_format (?T ! i) ?S \<noteq> str_format (?T ! j) ?S"
    using pne fmt [OF ij(1)] fmt [OF ij(2)] by simp
  show ?thesis
    apply (rule exI [of _ i], rule exI [of _ j], rule exI [of _ "stl (stl r)"])
    using ij tne gen dif sub [OF ij(1)] sub [OF ij(2)] by (intro conjI)
qed

end
